theory Spec2Isabelle
  imports Main "HOL-Library.Word" "HOL-Library.Sublist"
begin

section \<open>The program: \<^verbatim>\<open>jpeg_parser_phase1_marker_parsing.c\<close>\<close>

text \<open>
  The repository's source is one C file holding one function:
  \<^verbatim>\<open>
  int main(int argc, char *argv[]) {
      printf("JPEG Parser Phase 1: Marker Parsing - Initializing\n");
      // phase2_huffman_decode();
      // phase3_dct_reconstruction();
      // phase4_dct_encode_and_write();
      printf("JPEG Parser Execution Complete (Placeholder)\n");
      return 0;
  }
  \<close>
  The calls to the other phases, and their forward declarations, are comments.
\<close>

type_synonym byte = "8 word"

text \<open>A C \<^verbatim>\<open>int\<close>: 32 bits, read as a signed value by \<open>sint\<close>.\<close>

type_synonym c_int = "32 word"

text \<open>The entry points of the other phases, as the source names them in its comments.\<close>

datatype phase =
    phase2_huffman_decode
  | phase3_dct_reconstruction
  | phase4_dct_encode_and_write

text \<open>
  What a run of the process can touch: the bytes waiting on standard input (the program
  opens no file, so this is the only byte stream it could read), the bytes written to
  standard output so far, and the log of phase entry points invoked so far.
\<close>

record world =
  stdin :: "byte list"
  stdout :: string
  phases_called :: "phase list"

definition newline :: char where
  "newline = CHR 0x0A"

text \<open>
  \<^verbatim>\<open>printf\<close> with a format string and no further argument. Both format strings of the
  program are free of conversion specifications, so the format is written as it is; the
  result is the number of characters written. The stream is taken to accept every write.
\<close>

definition printf :: "string \<Rightarrow> world \<Rightarrow> c_int \<times> world" where
  "printf format w = (word_of_nat (length format), w\<lparr>stdout := stdout w @ format\<rparr>)"

definition status_initializing :: string where
  "status_initializing = ''JPEG Parser Phase 1: Marker Parsing - Initializing''"

definition status_complete :: string where
  "status_complete = ''JPEG Parser Execution Complete (Placeholder)''"

text \<open>\<^verbatim>\<open>main\<close>: both results of \<^verbatim>\<open>printf\<close> are discarded, as in the source.\<close>

definition main :: "c_int \<Rightarrow> string list \<Rightarrow> world \<Rightarrow> c_int \<times> world" where
  "main argc argv w0 =
     (let (_, w1) = printf (status_initializing @ [newline]) w0;
          (_, w2) = printf (status_complete @ [newline]) w1
      in (0, w2))"

text \<open>The bytes a run has added to standard output.\<close>

definition printed :: "world \<Rightarrow> c_int \<times> world \<Rightarrow> string" where
  "printed w r = drop (length (stdout w)) (stdout (snd r))"

section \<open>Marker codes of a JPEG stream\<close>

text \<open>
  The vocabulary in which the claims about input streams are stated. A marker is the
  byte \<open>0xFF\<close> followed by its code; SOI is \<open>0xFFD8\<close>, the baseline frame header SOF0 is
  \<open>0xFFC0\<close> and the progressive one, SOF2, is \<open>0xFFC2\<close> (ITU-T T.81, table B.1).
\<close>

definition SOI :: byte where
  "SOI = 0xD8"

definition SOF2 :: byte where
  "SOF2 = 0xC2"

text \<open>The frame header codes other than the baseline one.\<close>

definition non_baseline_SOF :: "byte \<Rightarrow> bool" where
  "non_baseline_SOF m \<longleftrightarrow>
     m \<in> set [0xC1, 0xC2, 0xC3, 0xC5, 0xC6, 0xC7, 0xC9, 0xCA, 0xCB, 0xCD, 0xCE, 0xCF]"

text \<open>The code of the marker a stream starts with, if it starts with one.\<close>

definition first_marker :: "byte list \<Rightarrow> byte option" where
  "first_marker s =
     (case s of
        b0 # b1 # _ \<Rightarrow> if b0 = 0xFF then Some b1 else None
      | _ \<Rightarrow> None)"

section \<open>The decoder components the specification describes\<close>

text \<open>
  The source holds none of the decoder: the entry points \<^verbatim>\<open>phase2_huffman_decode\<close> and
  \<^verbatim>\<open>phase3_dct_reconstruction\<close> are named in its comments and defined nowhere. The
  definitions of this section are therefore written from the specification's text, each
  marked as such, and the theorems about them say what that design guarantees, not what
  the program does.
\<close>

text \<open>Modelled from the spec: the error kinds of section 7 (no error type is in the source).\<close>

datatype error =
    FormatError string
  | UnsupportedFeature
  | EndOfStream
  | ConsistencyError

subsection \<open>Zig-zag order\<close>

text \<open>
  Modelled from the spec: the "fixed standard zig-zag permutation table" of section 4.4
  (DCT reconstruction, absent from the source). Entry \<open>i\<close> is the row-major position in
  the 8x8 block of the coefficient with zig-zag index \<open>i\<close> (ITU-T T.81, figure A.6).
\<close>

definition zigzag_table :: "nat list" where
  "zigzag_table =
     [ 0,  1,  8, 16,  9,  2,  3, 10,
      17, 24, 32, 25, 18, 11,  4,  5,
      12, 19, 26, 33, 40, 48, 41, 34,
      27, 20, 13,  6,  7, 14, 21, 28,
      35, 42, 49, 56, 57, 50, 43, 36,
      29, 22, 15, 23, 30, 37, 44, 51,
      58, 59, 52, 45, 38, 31, 39, 46,
      53, 60, 61, 54, 47, 55, 62, 63]"

text \<open>
  Modelled from the spec: "map zig-zag index to natural 8x8 row-major position" (section
  4.4, absent from the source). An index outside the block has no position.
\<close>

definition zigzag_to_natural :: "nat \<Rightarrow> nat option" where
  "zigzag_to_natural i = (if i < length zigzag_table then Some (zigzag_table ! i) else None)"

text \<open>The position of the first occurrence of a value in a list.\<close>

fun index_of :: "nat \<Rightarrow> nat list \<Rightarrow> nat option" where
  "index_of n [] = None"
| "index_of n (x # xs) = (if x = n then Some 0 else map_option Suc (index_of n xs))"

text \<open>
  Modelled from the spec: the inverse of the zig-zag mapping, which section 8 names
  ("applying it then its inverse"): the zig-zag index at which the table holds a position.
\<close>

definition natural_to_zigzag :: "nat \<Rightarrow> nat option" where
  "natural_to_zigzag n = index_of n zigzag_table"

subsection \<open>Canonical Huffman codes\<close>

text \<open>
  Modelled from the spec: a code of the derived canonical code table of section 3
  (HuffmanTable; absent from the source), as its length in bits and its numeric value.
\<close>

record huffman_code =
  code_length :: nat
  code_value :: nat

text \<open>
  Modelled from the spec: section 4.3, "for each code length L (1..16) with count[L] codes,
  assign codes in increasing numeric order, codes of length L are lexicographically before
  codes of length L+1 (standard JPEG canonical construction) - fails with FormatError if
  ... total exceeds 2^L capacity" (the Huffman decoder is absent from the source).
  \<open>code\<close> is the next free value at length \<open>L\<close>; the list holds the counts of the
  lengths from \<open>L\<close> on.
\<close>

fun assign_codes :: "nat \<Rightarrow> nat \<Rightarrow> nat list \<Rightarrow> error + huffman_code list" where
  "assign_codes L code [] = Inr []"
| "assign_codes L code (n # counts) =
     (if 2 ^ L < code + n then Inl (FormatError ''codes exceed the capacity of their length'')
      else case assign_codes (Suc L) (2 * (code + n)) counts of
             Inl e \<Rightarrow> Inl e
           | Inr rest \<Rightarrow>
               Inr (map (\<lambda>k. \<lparr>code_length = L, code_value = code + k\<rparr>) [0..<n] @ rest))"

text \<open>
  Modelled from the spec: the canonical codes of a histogram of code-length counts for the
  lengths 1 to 16 (sections 3 and 4.3; absent from the source).
\<close>

definition canonical_codes :: "nat list \<Rightarrow> error + huffman_code list" where
  "canonical_codes counts =
     (if length counts \<noteq> 16 then Inl (FormatError ''histogram is not of 16 lengths'')
      else assign_codes 1 0 counts)"

text \<open>
  Modelled from the spec: the code table "code -> symbol" of section 3, built from the
  counts and the symbol list; section 4.3 has it fail "if any length has codes but no
  symbols assigned" (absent from the source).
\<close>

definition build_code_table :: "nat list \<Rightarrow> byte list \<Rightarrow> error + (huffman_code \<times> byte) list" where
  "build_code_table counts symbols =
     (case canonical_codes counts of
        Inl e \<Rightarrow> Inl e
      | Inr codes \<Rightarrow>
          if length symbols < length codes then Inl (FormatError ''codes without symbols'')
          else Inr (zip codes symbols))"

text \<open>The bits of a code, the most significant first.\<close>

fun code_bits :: "nat \<Rightarrow> nat \<Rightarrow> bool list" where
  "code_bits 0 v = []"
| "code_bits (Suc n) v = code_bits n (v div 2) @ [odd v]"

definition bits_of :: "huffman_code \<Rightarrow> bool list" where
  "bits_of c = code_bits (code_length c) (code_value c)"

text \<open>
  Modelled from the spec: "no code is a prefix of another" (section 8), over the entries
  of a code list: no entry's bits are a prefix of another entry's.
\<close>

definition prefix_free :: "huffman_code list \<Rightarrow> bool" where
  "prefix_free t \<longleftrightarrow>
     (\<forall>i\<in>{..<length t}. \<forall>j\<in>{..<length t}.
        i \<noteq> j \<longrightarrow> \<not> prefix (bits_of (t ! i)) (bits_of (t ! j)))"

text \<open>
  The number of words of the last length of a histogram that are taken, as a code of that
  length or as an extension of a shorter code.
\<close>

definition codes_used :: "nat list \<Rightarrow> nat" where
  "codes_used counts = foldl (\<lambda>u n. 2 * u + n) 0 counts"

text \<open>
  Modelled from the spec: a valid code-length histogram (section 8) has a count for each
  of the lengths 1 to 16, and at no length \<open>L\<close> does the total exceed the capacity \<open>2^L\<close>
  (section 4.3).
\<close>

definition valid_histogram :: "nat list \<Rightarrow> bool" where
  "valid_histogram counts \<longleftrightarrow>
     length counts = 16 \<and> (\<forall>L\<in>{1..16}. codes_used (take L counts) \<le> 2 ^ L)"

text \<open>
  The order in which the construction assigns codes: a code assigned earlier is no
  longer than one assigned later, and the later one lies above every extension of the
  earlier one.
\<close>

definition precedes :: "huffman_code \<Rightarrow> huffman_code \<Rightarrow> bool" where
  "precedes a b \<longleftrightarrow>
     code_length a \<le> code_length b
     \<and> (code_value a + 1) * 2 ^ (code_length b - code_length a) \<le> code_value b"

subsection \<open>Differential DC decoding\<close>

text \<open>
  Modelled from the spec: what a scan holds as far as DC decoding goes (section 4.5;
  absent from the source): the decoded DC difference of a block of a component, in the
  order of decoding, and the restart markers between them.
\<close>

datatype scan_unit =
    DC_difference nat int
  | Restart_marker

text \<open>Modelled from the spec: the DC predictor of each component (section 4.5).\<close>

type_synonym predictors = "nat \<Rightarrow> int"

text \<open>Modelled from the spec: "predictor resets at start of scan" (section 4.5).\<close>

definition start_of_scan :: predictors where
  "start_of_scan = (\<lambda>c. 0)"

text \<open>
  Modelled from the spec: section 4.5, "actual DC value = previous DC value of same
  component + decoded difference" and "on restart marker (0xFFDn), reset Huffman decoder's
  DC predictors to 0" (absent from the source). The result is the predictors afterwards
  and the DC value decoded, tagged with its component.
\<close>

fun decode_dc :: "predictors \<Rightarrow> scan_unit \<Rightarrow> predictors \<times> (nat \<times> int) list" where
  "decode_dc P (DC_difference c d) = (P(c := P c + d), [(c, P c + d)])"
| "decode_dc P Restart_marker = (\<lambda>c. 0, [])"

text \<open>Modelled from the spec: the units of a scan decoded in order (section 4.5).\<close>

fun decode_units :: "predictors \<Rightarrow> scan_unit list \<Rightarrow> predictors \<times> (nat \<times> int) list" where
  "decode_units P [] = (P, [])"
| "decode_units P (u # us) =
     (let (P', out) = decode_dc P u;
          (P'', outs) = decode_units P' us
      in (P'', out @ outs))"

text \<open>Modelled from the spec: a scan, decoded from its start (section 4.5).\<close>

definition decode_scan :: "scan_unit list \<Rightarrow> predictors \<times> (nat \<times> int) list" where
  "decode_scan us = decode_units start_of_scan us"

text \<open>
  Modelled from the spec: the "previous DC value of same component" among the DC values
  decoded so far, 0 when the component has none yet.
\<close>

definition previous_dc :: "nat \<Rightarrow> (nat \<times> int) list \<Rightarrow> int" where
  "previous_dc c dcs = (case map_of (rev dcs) c of None \<Rightarrow> 0 | Some v \<Rightarrow> v)"

subsection \<open>Bit reader\<close>

text \<open>
  Modelled from the spec: the Bit Reader of section 4.1 (absent from the source): the
  caller's buffer, the internal cursor into it, and the byte whose bits are being handed
  out with the number of its bits still to come.
\<close>

record bit_reader =
  buffer :: "byte list"
  cursor :: nat
  current :: byte
  bits_left :: nat

text \<open>
  Modelled from the spec: what a read yields (section 4.1): a value, or the code of an
  embedded marker, which ends the entropy-coded segment.
\<close>

datatype 'a fetched =
    Got 'a
  | Segment_end byte

text \<open>
  Modelled from the spec: section 4.1, "must transparently strip stuffed 0x00 following
  0xFF within entropy-coded data, and must recognize an embedded marker (0xFFxx, xx~=0) as
  end-of-entropy-segment, pushing it back for the Marker Parser", and "fails with
  EndOfStream when exhausted" (absent from the source). On a marker the cursor stays on
  its 0xFF byte.
\<close>

definition next_byte :: "bit_reader \<Rightarrow> error + (byte fetched \<times> bit_reader)" where
  "next_byte r =
     (if length (buffer r) \<le> cursor r then Inl EndOfStream
      else if buffer r ! cursor r \<noteq> 0xFF
        then Inr (Got (buffer r ! cursor r), r\<lparr>cursor := cursor r + 1\<rparr>)
      else if length (buffer r) \<le> cursor r + 1 then Inl EndOfStream
      else if buffer r ! (cursor r + 1) = 0x00
        then Inr (Got 0xFF, r\<lparr>cursor := cursor r + 2\<rparr>)
      else Inr (Segment_end (buffer r ! (cursor r + 1)), r))"

text \<open>
  Modelled from the spec: \<^verbatim>\<open>nextBit() -> bit, fails with EndOfStream when exhausted\<close>
  (section 4.1; absent from the source). Bits come most significant first.
\<close>

definition nextBit :: "bit_reader \<Rightarrow> error + (bool fetched \<times> bit_reader)" where
  "nextBit r =
     (if bits_left r = 0 then
        (case next_byte r of
           Inl e \<Rightarrow> Inl e
         | Inr (Segment_end m, r') \<Rightarrow> Inr (Segment_end m, r')
         | Inr (Got b, r') \<Rightarrow> Inr (Got (bit b 7), r'\<lparr>current := b, bits_left := 7\<rparr>))
      else Inr (Got (bit (current r) (bits_left r - 1)), r\<lparr>bits_left := bits_left r - 1\<rparr>))"

text \<open>
  Modelled from the spec: the entropy decoder's use of the reader (section 4.2, "control
  transfers to entropy decode until next marker"): \<^verbatim>\<open>nextBit\<close> is called until it reports
  a marker or fails. The result is the bits read, the marker's code and the reader.
\<close>

function read_bits :: "bit_reader \<Rightarrow> error + (bool list \<times> byte \<times> bit_reader)" where
  "read_bits r =
     (case nextBit r of
        Inl e \<Rightarrow> Inl e
      | Inr (Segment_end m, r') \<Rightarrow> Inr ([], m, r')
      | Inr (Got x, r') \<Rightarrow>
          (case read_bits r' of
             Inl e \<Rightarrow> Inl e
           | Inr (xs, m, r'') \<Rightarrow> Inr (x # xs, m, r'')))"
  by pat_completeness auto
termination
  by (relation "measure (\<lambda>r. 8 * (length (buffer r) - cursor r) + bits_left r)")
     (auto simp: nextBit_def next_byte_def
           split: if_splits sum.splits prod.splits fetched.splits)

declare read_bits.simps [simp del]

text \<open>
  Modelled from the spec: the byte stuffing of section 2 ("0xFF00 escaping"), as the
  encoder applies it: a zero byte follows every 0xFF of the data.
\<close>

definition stuff :: "byte list \<Rightarrow> byte list" where
  "stuff data = concat (map (\<lambda>b. if b = 0xFF then [0xFF, 0x00] else [b]) data)"

text \<open>The bits of a byte, the most significant first.\<close>

definition byte_bits :: "byte \<Rightarrow> bool list" where
  "byte_bits b = map (bit b) [7, 6, 5, 4, 3, 2, 1, 0]"

text \<open>A reader at a byte boundary of a buffer.\<close>

definition open_reader :: "byte list \<Rightarrow> nat \<Rightarrow> bit_reader" where
  "open_reader buf pos = \<lparr>buffer = buf, cursor = pos, current = 0, bits_left = 0\<rparr>"

text \<open>Bits put in front of the bits a read returns.\<close>

definition prepend :: "bool list \<Rightarrow> error + (bool list \<times> byte \<times> bit_reader)
    \<Rightarrow> error + (bool list \<times> byte \<times> bit_reader)" where
  "prepend bs res = (case res of Inl e \<Rightarrow> Inl e | Inr (xs, m, r) \<Rightarrow> Inr (bs @ xs, m, r))"

section \<open>Behaviour of the program\<close>

lemma main_result:
  "main argc argv w =
     (0, w\<lparr>stdout := stdout w @ status_initializing @ [newline] @ status_complete @ [newline]\<rparr>)"
  by (simp add: main_def printf_def)

text \<open>
  C1. For every \<open>argc\<close> and \<open>argv\<close> (and whatever waits on standard input) the program
  appends to standard output exactly the line "JPEG Parser Phase 1: Marker Parsing -
  Initializing" and then the line "JPEG Parser Execution Complete (Placeholder)", each
  ended by a newline, and does nothing else: no byte of input is read (no marker is
  parsed) and none of the Huffman decoding, DCT reconstruction or encoding phases is
  entered.
\<close>

theorem main_prints_two_status_lines:
  "stdout (snd (main argc argv w)) =
     stdout w @ ''JPEG Parser Phase 1: Marker Parsing - Initializing'' @ [CHR 0x0A]
              @ ''JPEG Parser Execution Complete (Placeholder)'' @ [CHR 0x0A]
   \<and> stdin (snd (main argc argv w)) = stdin w
   \<and> phases_called (snd (main argc argv w)) = phases_called w"
  by (simp add: main_result status_initializing_def status_complete_def newline_def)

text \<open>
  C2. For every \<open>argc\<close> and \<open>argv\<close>, \<open>main\<close> returns, and the value it returns is 0.
  (\<open>main\<close> is a total function with no loop and no recursion.)
\<close>

theorem main_returns_zero:
  "\<exists>w'. main argc argv w = (0, w')"
  by (simp add: main_result)

text \<open>
  C3. Two invocations with any command-line arguments print the same bytes and return the
  same value: neither depends on \<open>argc\<close> or \<open>argv\<close> (nor on the world the run starts in).
\<close>

theorem main_independent_of_arguments:
  "printed w (main argc argv w) = printed w' (main argc' argv' w')
   \<and> fst (main argc argv w) = fst (main argc' argv' w')"
  by (simp add: main_result printed_def)

text \<open>
  C4 fails on the program. The stream \<open>FF D9\<close> starts with the marker EOI, not SOI; run on
  it, the program reports no error: it returns 0, the status of a successful run, its
  output ends with the line "JPEG Parser Execution Complete (Placeholder)", and the
  stream is still unread.
\<close>

theorem missing_SOI_counterexample:
  "first_marker [0xFF, 0xD9] \<noteq> Some SOI
   \<and> main 2 [''jpeg_parser'', ''-'']
        \<lparr>stdin = [0xFF, 0xD9], stdout = [], phases_called = []\<rparr>
     = (0, \<lparr>stdin = [0xFF, 0xD9],
            stdout = ''JPEG Parser Phase 1: Marker Parsing - Initializing'' @ [CHR 0x0A]
                     @ ''JPEG Parser Execution Complete (Placeholder)'' @ [CHR 0x0A],
            phases_called = []\<rparr>)"
  by (simp add: main_result first_marker_def SOI_def status_initializing_def
      status_complete_def newline_def)

text \<open>
  C4, amended. For every input byte stream whose first marker is not SOI, the program
  does not fail: it returns 0 after printing its two status lines, and it builds no
  quantization or Huffman table, since it reads no byte of the stream and enters no
  other phase.
\<close>

theorem missing_SOI_not_reported:
  assumes "first_marker (stdin w) \<noteq> Some SOI"
  shows "fst (main argc argv w) = 0
    \<and> printed w (main argc argv w)
        = status_initializing @ [newline] @ status_complete @ [newline]
    \<and> stdin (snd (main argc argv w)) = stdin w
    \<and> phases_called (snd (main argc argv w)) = phases_called w"
  by (simp add: main_result printed_def)

theorem missing_SOI_not_reported_witness:
  "first_marker (stdin \<lparr>stdin = [0xFF, 0xE0], stdout = [], phases_called = []\<rparr>) \<noteq> Some SOI
   \<and> fst (main 1 [''jpeg_parser'']
        \<lparr>stdin = [0xFF, 0xE0], stdout = [], phases_called = []\<rparr>) = 0
   \<and> stdin (snd (main 1 [''jpeg_parser'']
        \<lparr>stdin = [0xFF, 0xE0], stdout = [], phases_called = []\<rparr>)) = [0xFF, 0xE0]"
proof -
  have h: "first_marker (stdin \<lparr>stdin = [0xFF, 0xE0], stdout = [], phases_called = []\<rparr>)
           \<noteq> Some SOI"
    by (simp add: first_marker_def SOI_def)
  from missing_SOI_not_reported [OF h, of 1 "[''jpeg_parser'']"] h show ?thesis
    by simp
qed

text \<open>
  C5 fails on the program. The stream \<open>FF D8 FF C2 00 0B 08 00 08 00 08 01 01 11 00\<close> has
  SOI and then a progressive frame header (SOF2); run on it, the program raises nothing:
  it returns 0 and prints its two status lines, the stream unread.
\<close>

theorem progressive_SOF_counterexample:
  "non_baseline_SOF SOF2
   \<and> main 1 [''jpeg_parser'']
        \<lparr>stdin = [0xFF, SOI, 0xFF, SOF2, 0x00, 0x0B, 0x08, 0x00, 0x08, 0x00, 0x08,
                  0x01, 0x01, 0x11, 0x00],
         stdout = [], phases_called = []\<rparr>
     = (0, \<lparr>stdin = [0xFF, SOI, 0xFF, SOF2, 0x00, 0x0B, 0x08, 0x00, 0x08, 0x00, 0x08,
                     0x01, 0x01, 0x11, 0x00],
            stdout = ''JPEG Parser Phase 1: Marker Parsing - Initializing'' @ [CHR 0x0A]
                     @ ''JPEG Parser Execution Complete (Placeholder)'' @ [CHR 0x0A],
            phases_called = []\<rparr>)"
  by (simp add: main_result non_baseline_SOF_def SOF2_def status_initializing_def
      status_complete_def newline_def)

text \<open>
  C5, amended. For every input stream that holds a non-baseline SOF marker after SOI (in
  particular \<open>0xC2\<close>, progressive), the program neither fails with UnsupportedFeature nor
  decodes anything: it returns 0 and its whole output is the two status lines, the stream
  left unread and no other phase entered.
\<close>

theorem non_baseline_SOF_not_reported:
  assumes "non_baseline_SOF m"
    and "stdin w = [0xFF, SOI] @ tables @ [0xFF, m] @ rest"
  shows "fst (main argc argv w) = 0
    \<and> printed w (main argc argv w)
        = status_initializing @ [newline] @ status_complete @ [newline]
    \<and> stdin (snd (main argc argv w)) = [0xFF, SOI] @ tables @ [0xFF, m] @ rest
    \<and> phases_called (snd (main argc argv w)) = phases_called w"
  using assms(2) by (simp add: main_result printed_def)

theorem non_baseline_SOF_not_reported_witness:
  "non_baseline_SOF 0xC2
   \<and> fst (main 2 [''jpeg_parser'', ''in.jpg'']
        \<lparr>stdin = [0xFF, SOI, 0xFF, 0xC2, 0x00, 0x02], stdout = [], phases_called = []\<rparr>) = 0
   \<and> printed \<lparr>stdin = [0xFF, SOI, 0xFF, 0xC2, 0x00, 0x02], stdout = [], phases_called = []\<rparr>
       (main 2 [''jpeg_parser'', ''in.jpg'']
        \<lparr>stdin = [0xFF, SOI, 0xFF, 0xC2, 0x00, 0x02], stdout = [], phases_called = []\<rparr>)
     = status_initializing @ [newline] @ status_complete @ [newline]"
proof -
  have h1: "non_baseline_SOF 0xC2"
    by (simp add: non_baseline_SOF_def)
  have h2: "stdin \<lparr>stdin = [0xFF, SOI, 0xFF, 0xC2, 0x00, 0x02], stdout = [], phases_called = []\<rparr>
            = [0xFF, SOI] @ [] @ [0xFF, 0xC2] @ [0x00, 0x02]"
    by simp
  from non_baseline_SOF_not_reported [OF h1 h2, of 2 "[''jpeg_parser'', ''in.jpg'']"] h1
  show ?thesis by simp
qed

section \<open>The zig-zag mapping\<close>

lemma zigzag_then_inverse:
  "\<forall>i<64. \<exists>n<64. zigzag_to_natural i = Some n \<and> natural_to_zigzag n = Some i"
proof -
  have "list_all (\<lambda>i. case zigzag_to_natural i of None \<Rightarrow> False
      | Some n \<Rightarrow> n < 64 \<and> natural_to_zigzag n = Some i) [0..<64]"
    by code_simp
  then have *: "\<And>i. i < 64 \<Longrightarrow> (case zigzag_to_natural i of None \<Rightarrow> False
      | Some n \<Rightarrow> n < 64 \<and> natural_to_zigzag n = Some i)"
    by (simp add: list_all_iff)
  show ?thesis
  proof (intro allI impI)
    fix i :: nat
    assume "i < 64"
    from * [OF this]
    show "\<exists>n<64. zigzag_to_natural i = Some n \<and> natural_to_zigzag n = Some i"
      by (cases "zigzag_to_natural i") auto
  qed
qed

lemma inverse_then_zigzag:
  "\<forall>n<64. \<exists>i<64. natural_to_zigzag n = Some i \<and> zigzag_to_natural i = Some n"
proof -
  have "list_all (\<lambda>n. case natural_to_zigzag n of None \<Rightarrow> False
      | Some i \<Rightarrow> i < 64 \<and> zigzag_to_natural i = Some n) [0..<64]"
    by code_simp
  then have *: "\<And>n. n < 64 \<Longrightarrow> (case natural_to_zigzag n of None \<Rightarrow> False
      | Some i \<Rightarrow> i < 64 \<and> zigzag_to_natural i = Some n)"
    by (simp add: list_all_iff)
  show ?thesis
  proof (intro allI impI)
    fix n :: nat
    assume "n < 64"
    from * [OF this]
    show "\<exists>i<64. natural_to_zigzag n = Some i \<and> zigzag_to_natural i = Some n"
      by (cases "natural_to_zigzag n") auto
  qed
qed

lemma zigzag_bij_betw:
  "bij_betw (\<lambda>i. the (zigzag_to_natural i)) {0..<64} {0..<64}"
  unfolding bij_betw_def inj_on_def
proof (intro conjI ballI impI)
  fix i j
  assume "i \<in> {0..<64::nat}" and "j \<in> {0..<64::nat}"
    and "the (zigzag_to_natural i) = the (zigzag_to_natural j)"
  then show "i = j"
    using zigzag_then_inverse by (metis atLeastLessThan_iff option.sel)
next
  show "(\<lambda>i. the (zigzag_to_natural i)) ` {0..<64} = {0..<64}"
    using zigzag_then_inverse inverse_then_zigzag by (force simp: image_iff)
qed

text \<open>
  The table is the zig-zag walk of the 8x8 block: it starts in the top left corner and
  each step goes to the next cell of the current anti-diagonal, upwards on the even ones
  and downwards on the odd ones, or, at the border, to the first cell of the next one.
\<close>

lemma zigzag_walks_diagonals:
  "zigzag_to_natural 0 = Some 0 \<and>
   (\<forall>i<63. \<exists>p q. zigzag_to_natural i = Some p \<and> zigzag_to_natural (Suc i) = Some q \<and>
      (let r = p div 8; c = p mod 8; r' = q div 8; c' = q mod 8 in
         if even (r + c) then
           (if r = 0 \<or> c = 7 then (if c = 7 then r' = r + 1 \<and> c' = c else r' = r \<and> c' = c + 1)
            else r' = r - 1 \<and> c' = c + 1)
         else
           (if c = 0 \<or> r = 7 then (if r = 7 then r' = r \<and> c' = c + 1 else r' = r + 1 \<and> c' = c)
            else r' = r + 1 \<and> c' = c - 1)))"
proof -
  have "list_all (\<lambda>i. case (zigzag_to_natural i, zigzag_to_natural (Suc i)) of
      (Some p, Some q) \<Rightarrow>
      (let r = p div 8; c = p mod 8; r' = q div 8; c' = q mod 8 in
         if even (r + c) then
           (if r = 0 \<or> c = 7 then (if c = 7 then r' = r + 1 \<and> c' = c else r' = r \<and> c' = c + 1)
            else r' = r - 1 \<and> c' = c + 1)
         else
           (if c = 0 \<or> r = 7 then (if r = 7 then r' = r \<and> c' = c + 1 else r' = r + 1 \<and> c' = c)
            else r' = r + 1 \<and> c' = c - 1))
      | _ \<Rightarrow> False) [0..<63]"
    by code_simp
  then have *: "\<And>i. i < 63 \<Longrightarrow> (case (zigzag_to_natural i, zigzag_to_natural (Suc i)) of
      (Some p, Some q) \<Rightarrow>
      (let r = p div 8; c = p mod 8; r' = q div 8; c' = q mod 8 in
         if even (r + c) then
           (if r = 0 \<or> c = 7 then (if c = 7 then r' = r + 1 \<and> c' = c else r' = r \<and> c' = c + 1)
            else r' = r - 1 \<and> c' = c + 1)
         else
           (if c = 0 \<or> r = 7 then (if r = 7 then r' = r \<and> c' = c + 1 else r' = r + 1 \<and> c' = c)
            else r' = r + 1 \<and> c' = c - 1))
      | _ \<Rightarrow> False)"
    by (simp add: list_all_iff)
  have z: "zigzag_to_natural 0 = Some 0"
    by (simp add: zigzag_to_natural_def zigzag_table_def)
  show ?thesis
  proof (intro conjI allI impI)
    show "zigzag_to_natural 0 = Some 0" by (rule z)
  next
    fix i :: nat
    assume "i < 63"
    from * [OF this] show "\<exists>p q. zigzag_to_natural i = Some p \<and> zigzag_to_natural (Suc i) = Some q \<and>
      (let r = p div 8; c = p mod 8; r' = q div 8; c' = q mod 8 in
         if even (r + c) then
           (if r = 0 \<or> c = 7 then (if c = 7 then r' = r + 1 \<and> c' = c else r' = r \<and> c' = c + 1)
            else r' = r - 1 \<and> c' = c + 1)
         else
           (if c = 0 \<or> r = 7 then (if r = 7 then r' = r \<and> c' = c + 1 else r' = r + 1 \<and> c' = c)
            else r' = r + 1 \<and> c' = c - 1))"
      by (cases "zigzag_to_natural i"; cases "zigzag_to_natural (Suc i)") simp_all
  qed
qed

text \<open>
  C6. On the table the specification names, the zig-zag-to-natural mapping is a bijection
  of the indices 0..63: every index below 64 is sent to a position below 64, every
  position below 64 is reached, and the mapping followed by its inverse gives the index
  back (as the inverse followed by the mapping gives the position back).
\<close>

theorem zigzag_is_bijection:
  "bij_betw (\<lambda>i. the (zigzag_to_natural i)) {0..<64} {0..<64}
   \<and> (\<forall>i<64. \<exists>n<64. zigzag_to_natural i = Some n \<and> natural_to_zigzag n = Some i)
   \<and> (\<forall>n<64. \<exists>i<64. natural_to_zigzag n = Some i \<and> zigzag_to_natural i = Some n)"
  using zigzag_bij_betw zigzag_then_inverse inverse_then_zigzag by blast

theorem zigzag_is_bijection_witness:
  "(2::nat) < 64 \<and> zigzag_to_natural 2 = Some 8 \<and> natural_to_zigzag 8 = Some 2"
proof -
  from zigzag_is_bijection
  have "\<exists>n<64. zigzag_to_natural 2 = Some n \<and> natural_to_zigzag n = Some 2"
    by simp
  moreover have "zigzag_to_natural 2 = Some 8"
    by (simp add: zigzag_to_natural_def zigzag_table_def)
  ultimately show ?thesis by auto
qed

section \<open>Canonical Huffman codes\<close>

subsection \<open>Bits and prefixes\<close>

lemma length_code_bits [simp]: "length (code_bits n v) = n"
  by (induction n arbitrary: v) simp_all

lemma code_bits_add: "code_bits (m + k) v = code_bits m (v div 2 ^ k) @ code_bits k v"
proof (induction k arbitrary: v)
  case 0
  then show ?case by simp
next
  case (Suc k)
  have "code_bits (m + Suc k) v = code_bits (m + k) (v div 2) @ [odd v]"
    by simp
  also have "\<dots> = code_bits m (v div 2 div 2 ^ k) @ code_bits k (v div 2) @ [odd v]"
    by (simp add: Suc.IH)
  also have "v div 2 div 2 ^ k = v div 2 ^ Suc k"
    by (simp add: div_mult2_eq)
  finally show ?case by simp
qed

lemma code_bits_inj: "code_bits n a = code_bits n b \<Longrightarrow> a mod 2 ^ n = b mod 2 ^ n"
proof (induction n arbitrary: a b)
  case 0
  then show ?case by simp
next
  case (Suc n)
  from Suc.prems have eq: "code_bits n (a div 2) = code_bits n (b div 2)"
    and par: "odd a = odd b"
    by simp_all
  from Suc.IH [OF eq] have h: "a div 2 mod 2 ^ n = b div 2 mod 2 ^ n" .
  have "a mod 2 ^ Suc n = 2 * (a div 2 mod 2 ^ n) + a mod 2"
    by (simp add: mod_mult2_eq)
  moreover have "b mod 2 ^ Suc n = 2 * (b div 2 mod 2 ^ n) + b mod 2"
    by (simp add: mod_mult2_eq)
  moreover from par have "a mod 2 = b mod 2"
    by (metis odd_iff_mod_2_eq_one not_mod_2_eq_1_eq_0)
  ultimately show ?case using h by simp
qed

text \<open>A code that is a prefix of another is the other's value with its low bits cut off.\<close>

lemma prefix_code_bits:
  assumes "prefix (code_bits m a) (code_bits n b)" and "a < 2 ^ m" and "b < 2 ^ n"
  shows "m \<le> n \<and> b div 2 ^ (n - m) = a"
proof -
  from assms(1) have mn: "m \<le> n"
    using prefix_length_le by fastforce
  then have "code_bits n b = code_bits m (b div 2 ^ (n - m)) @ code_bits (n - m) b"
    using code_bits_add [of m "n - m" b] by simp
  with assms(1)
  have "prefix (code_bits m a) (code_bits m (b div 2 ^ (n - m)) @ code_bits (n - m) b)"
    by simp
  then obtain ws where
    "code_bits m (b div 2 ^ (n - m)) @ code_bits (n - m) b = code_bits m a @ ws"
    by (auto simp: prefix_def)
  then have "code_bits m a = code_bits m (b div 2 ^ (n - m))"
    by (simp add: append_eq_append_conv)
  then have "a mod 2 ^ m = b div 2 ^ (n - m) mod 2 ^ m"
    by (rule code_bits_inj)
  moreover have "b div 2 ^ (n - m) < 2 ^ m"
  proof -
    have "b < 2 ^ (n - m) * 2 ^ m"
      using assms(3) mn by (simp flip: power_add)
    then show ?thesis
      by (simp add: less_mult_imp_div_less mult.commute)
  qed
  ultimately show ?thesis using mn assms(2) by simp
qed

subsection \<open>The order of the assigned codes\<close>

lemma precedes_not_prefix:
  assumes "precedes a b"
    and "code_value a < 2 ^ code_length a" and "code_value b < 2 ^ code_length b"
  shows "\<not> prefix (bits_of a) (bits_of b)" and "\<not> prefix (bits_of b) (bits_of a)"
proof -
  let ?d = "code_length b - code_length a"
  from assms(1) have le: "code_length a \<le> code_length b"
    and big: "(code_value a + 1) * 2 ^ ?d \<le> code_value b"
    by (simp_all add: precedes_def)
  from big have gt: "code_value a < code_value b div 2 ^ ?d"
    by (simp add: less_eq_div_iff_mult_less_eq Suc_le_eq [symmetric])
  show "\<not> prefix (bits_of a) (bits_of b)"
  proof
    assume "prefix (bits_of a) (bits_of b)"
    then have "code_value b div 2 ^ ?d = code_value a"
      using prefix_code_bits assms(2,3) by (simp add: bits_of_def)
    with gt show False by simp
  qed
  show "\<not> prefix (bits_of b) (bits_of a)"
  proof
    assume "prefix (bits_of b) (bits_of a)"
    then have "code_length b \<le> code_length a
        \<and> code_value a div 2 ^ (code_length a - code_length b) = code_value b"
      using prefix_code_bits assms(2,3) by (simp add: bits_of_def)
    with le have "code_length a = code_length b" and "code_value a = code_value b"
      by auto
    with gt show False by simp
  qed
qed

lemma double_power_diff:
  assumes "Suc L \<le> n"
  shows "2 * x * 2 ^ (n - Suc L) = x * (2::nat) ^ (n - L)"
proof -
  from assms have "n - L = Suc (n - Suc L)"
    by simp
  then show ?thesis by simp
qed

lemma assign_codes_sorted:
  assumes "assign_codes L code counts = Inr t"
  shows "length t = sum_list counts
     \<and> sorted_wrt precedes t
     \<and> (\<forall>c\<in>set t. L \<le> code_length c \<and> code * 2 ^ (code_length c - L) \<le> code_value c
                    \<and> code_value c < 2 ^ code_length c)"
  using assms
proof (induction counts arbitrary: L code t)
  case Nil
  then show ?case by simp
next
  case (Cons n counts)
  let ?heads = "map (\<lambda>k. \<lparr>code_length = L, code_value = code + k\<rparr>) [0..<n]"
  from Cons.prems have cap: "code + n \<le> 2 ^ L"
    by (simp split: if_splits)
  from Cons.prems obtain rest where
    rest: "assign_codes (Suc L) (2 * (code + n)) counts = Inr rest"
    and t: "t = ?heads @ rest"
    by (auto split: if_splits sum.splits)
  note IH = Cons.IH [OF rest]
  have heads: "code_length c = L \<and> code \<le> code_value c \<and> code_value c < code + n"
    if "c \<in> set ?heads" for c
    using that by auto
  have sorted_heads: "sorted_wrt precedes ?heads"
    unfolding sorted_wrt_iff_nth_less
  proof (intro allI impI)
    fix i j
    assume "i < j" and "j < length ?heads"
    then show "precedes (?heads ! i) (?heads ! j)"
      by (simp add: precedes_def)
  qed
  have above: "(code + n) * 2 ^ (code_length c - L) \<le> code_value c" if "c \<in> set rest" for c
  proof -
    from IH that have h1: "Suc L \<le> code_length c"
      and h2: "2 * (code + n) * 2 ^ (code_length c - Suc L) \<le> code_value c"
      by simp_all
    from h2 show ?thesis
      by (simp only: double_power_diff [OF h1])
  qed
  have cross: "precedes a b" if "a \<in> set ?heads" and "b \<in> set rest" for a b
  proof -
    from heads [OF that(1)] have a: "code_length a = L" "code_value a + 1 \<le> code + n"
      by simp_all
    from IH that(2) have b: "Suc L \<le> code_length b"
      by simp
    have "(code_value a + 1) * 2 ^ (code_length b - L) \<le> (code + n) * 2 ^ (code_length b - L)"
      using a(2) by (rule mult_le_mono1)
    with above [OF that(2)] show ?thesis
      using a(1) b by (simp add: precedes_def)
  qed
  have bounds_rest: "L \<le> code_length c \<and> code * 2 ^ (code_length c - L) \<le> code_value c
      \<and> code_value c < 2 ^ code_length c" if "c \<in> set rest" for c
  proof -
    from IH that have b: "Suc L \<le> code_length c" "code_value c < 2 ^ code_length c"
      by simp_all
    from above [OF that] have "code * 2 ^ (code_length c - L) \<le> code_value c"
      by (simp add: add_mult_distrib)
    then show ?thesis using b by simp
  qed
  have bounds_heads: "L \<le> code_length c \<and> code * 2 ^ (code_length c - L) \<le> code_value c
      \<and> code_value c < 2 ^ code_length c" if "c \<in> set ?heads" for c
    using heads [OF that] cap by simp
  have "length t = sum_list (n # counts)"
    using t IH by simp
  moreover have "sorted_wrt precedes t"
    unfolding t sorted_wrt_append using sorted_heads IH cross by blast
  moreover have "\<forall>c\<in>set t. L \<le> code_length c
      \<and> code * 2 ^ (code_length c - L) \<le> code_value c \<and> code_value c < 2 ^ code_length c"
    unfolding t using bounds_heads bounds_rest by auto
  ultimately show ?case by blast
qed

lemma sorted_prefix_free:
  assumes "sorted_wrt precedes t" and "\<forall>c\<in>set t. code_value c < 2 ^ code_length c"
  shows "prefix_free t"
  unfolding prefix_free_def
proof (intro ballI impI)
  fix i j
  assume "i \<in> {..<length t}" and "j \<in> {..<length t}" and ne: "i \<noteq> j"
  then have i: "i < length t" and j: "j < length t"
    by simp_all
  from assms(2) i j have wf: "code_value (t ! i) < 2 ^ code_length (t ! i)"
    "code_value (t ! j) < 2 ^ code_length (t ! j)"
    by simp_all
  from ne consider "i < j" | "j < i"
    by (meson nat_neq_iff)
  then show "\<not> prefix (bits_of (t ! i)) (bits_of (t ! j))"
  proof cases
    case 1
    with assms(1) j have "precedes (t ! i) (t ! j)"
      by (simp add: sorted_wrt_iff_nth_less)
    then show ?thesis using wf by (rule precedes_not_prefix(1))
  next
    case 2
    with assms(1) i have "precedes (t ! j) (t ! i)"
      by (simp add: sorted_wrt_iff_nth_less)
    then show ?thesis using wf(2,1) by (rule precedes_not_prefix(2))
  qed
qed

subsection \<open>A valid histogram is accepted\<close>

lemma assign_codes_succeeds:
  assumes "\<forall>k<length counts. foldl (\<lambda>u n. 2 * u + n) u (take (Suc k) counts) \<le> 2 ^ (L + k)"
  shows "\<exists>t. assign_codes L (2 * u) counts = Inr t"
  using assms
proof (induction counts arbitrary: L u)
  case Nil
  then show ?case by simp
next
  case (Cons n counts)
  from Cons.prems [rule_format, of 0] have cap: "2 * u + n \<le> 2 ^ L"
    by simp
  have "\<forall>k<length counts.
      foldl (\<lambda>u n. 2 * u + n) (2 * u + n) (take (Suc k) counts) \<le> 2 ^ (Suc L + k)"
  proof (intro allI impI)
    fix k
    assume "k < length counts"
    then have "Suc k < length (n # counts)"
      by simp
    from Cons.prems [rule_format, OF this]
    show "foldl (\<lambda>u n. 2 * u + n) (2 * u + n) (take (Suc k) counts) \<le> 2 ^ (Suc L + k)"
      by simp
  qed
  from Cons.IH [OF this] obtain rest where
    "assign_codes (Suc L) (2 * (2 * u + n)) counts = Inr rest" ..
  with cap show ?case by simp
qed

lemma valid_histogram_accepted:
  assumes "valid_histogram counts"
  shows "\<exists>t. assign_codes 1 0 counts = Inr t"
proof -
  from assms have len: "length counts = 16"
    and cap: "\<And>L. 1 \<le> L \<Longrightarrow> L \<le> 16 \<Longrightarrow> codes_used (take L counts) \<le> 2 ^ L"
    by (simp_all add: valid_histogram_def)
  have "\<forall>k<length counts. foldl (\<lambda>u n. 2 * u + n) 0 (take (Suc k) counts) \<le> 2 ^ (1 + k)"
  proof (intro allI impI)
    fix k
    assume "k < length counts"
    with len have "1 \<le> Suc k" "Suc k \<le> 16"
      by simp_all
    from cap [OF this] show "foldl (\<lambda>u n. 2 * u + n) 0 (take (Suc k) counts) \<le> 2 ^ (1 + k)"
      by (simp add: codes_used_def)
  qed
  from assign_codes_succeeds [OF this] show ?thesis
    by auto
qed

text \<open>Conversely, the construction rejects every histogram that is not valid.\<close>

lemma assign_codes_capacity:
  assumes "assign_codes L (2 * u) counts = Inr t"
  shows "\<forall>k<length counts. foldl (\<lambda>u n. 2 * u + n) u (take (Suc k) counts) \<le> 2 ^ (L + k)"
  using assms
proof (induction counts arbitrary: L u t)
  case Nil
  then show ?case by simp
next
  case (Cons n counts)
  from Cons.prems have cap: "2 * u + n \<le> 2 ^ L"
    by (simp split: if_splits)
  from Cons.prems obtain rest where
    "assign_codes (Suc L) (2 * (2 * u + n)) counts = Inr rest"
    by (auto split: if_splits sum.splits)
  from Cons.IH [OF this] have IH: "\<forall>k<length counts.
      foldl (\<lambda>u n. 2 * u + n) (2 * u + n) (take (Suc k) counts) \<le> 2 ^ (Suc L + k)" .
  show ?case
  proof (intro allI impI)
    fix k assume k: "k < length (n # counts)"
    show "foldl (\<lambda>u n. 2 * u + n) u (take (Suc k) (n # counts)) \<le> 2 ^ (L + k)"
    proof (cases k)
      case 0
      with cap show ?thesis by simp
    next
      case (Suc k')
      with k IH show ?thesis by simp
    qed
  qed
qed

lemma canonical_codes_accepts_iff:
  "(\<exists>codes. canonical_codes counts = Inr codes) \<longleftrightarrow> valid_histogram counts"
proof
  assume "\<exists>codes. canonical_codes counts = Inr codes"
  then obtain t where len: "length counts = 16" and t: "assign_codes 1 (2 * 0) counts = Inr t"
    by (auto simp: canonical_codes_def split: if_splits)
  from assign_codes_capacity [OF t] have cap:
    "\<And>k. k < 16 \<Longrightarrow> foldl (\<lambda>u n. 2 * u + n) 0 (take (Suc k) counts) \<le> 2 ^ (1 + k)"
    using len by simp
  have "codes_used (take L counts) \<le> 2 ^ L" if "L \<in> {1..16}" for L
  proof -
    from that obtain k where "L = Suc k" "k < 16"
      by (cases L) auto
    with cap [of k] show ?thesis
      by (simp add: codes_used_def)
  qed
  with len show "valid_histogram counts"
    by (simp add: valid_histogram_def)
next
  assume v: "valid_histogram counts"
  then have "length counts = 16"
    by (simp add: valid_histogram_def)
  with valid_histogram_accepted [OF v] show "\<exists>codes. canonical_codes counts = Inr codes"
    by (simp add: canonical_codes_def)
qed

text \<open>
  The total of a histogram's last length written out: a code of length \<open>l\<close> takes
  \<open>2^(L-l)\<close> of the \<open>2^L\<close> words of length \<open>L\<close>, so validity is Kraft's inequality at
  every length.
\<close>

lemma codes_used_snoc: "codes_used (cs @ [c]) = 2 * codes_used cs + c"
  by (simp add: codes_used_def)

lemma codes_used_sum:
  "codes_used cs = (\<Sum>i<length cs. cs ! i * 2 ^ (length cs - 1 - i))"
proof (induction cs rule: rev_induct)
  case Nil
  then show ?case by (simp add: codes_used_def)
next
  case (snoc c cs)
  have "(\<Sum>i<length cs. (cs @ [c]) ! i * 2 ^ (length (cs @ [c]) - 1 - i))
      = (\<Sum>i<length cs. 2 * (cs ! i * 2 ^ (length cs - 1 - i)))"
  proof (rule sum.cong)
    fix i assume "i \<in> {..<length cs}"
    then have i: "i < length cs" by simp
    then have "length cs - i = Suc (length cs - 1 - i)" by simp
    then show "(cs @ [c]) ! i * 2 ^ (length (cs @ [c]) - 1 - i) = 2 * (cs ! i * 2 ^ (length cs - 1 - i))"
      using i by (simp add: nth_append)
  qed simp
  also have "\<dots> = 2 * codes_used cs"
    by (simp add: snoc.IH sum_distrib_left)
  finally show ?case
    by (simp add: codes_used_snoc)
qed

text \<open>
  C7. On the construction the specification describes: for every valid code-length
  histogram (a count for each of the lengths 1..16, the capacity of no length exceeded),
  the construction succeeds, no generated code is a prefix of another, and the number of
  generated codes is the histogram's total; given as many symbols as codes, the table
  pairs the codes with the symbols in order.
\<close>

theorem canonical_codes_prefix_free:
  assumes "valid_histogram counts"
  shows "\<exists>codes. canonical_codes counts = Inr codes
           \<and> prefix_free codes
           \<and> length codes = sum_list counts
           \<and> (\<forall>symbols. length symbols = sum_list counts \<longrightarrow>
                 build_code_table counts symbols = Inr (zip codes symbols))"
proof -
  from assms have len: "length counts = 16"
    by (simp add: valid_histogram_def)
  from valid_histogram_accepted [OF assms] obtain t where
    t: "assign_codes 1 0 counts = Inr t" ..
  from assign_codes_sorted [OF t] have props: "length t = sum_list counts" "prefix_free t"
    by (simp_all add: sorted_prefix_free)
  from t len have codes: "canonical_codes counts = Inr t"
    by (simp add: canonical_codes_def)
  have "\<forall>symbols. length symbols = sum_list counts \<longrightarrow>
      build_code_table counts symbols = Inr (zip t symbols)"
    using codes props(1) by (simp add: build_code_table_def)
  with codes props show ?thesis
    by blast
qed

theorem canonical_codes_prefix_free_witness:
  "valid_histogram [0, 1, 5, 1, 1, 1, 1, 1, 1, 0, 0, 0, 0, 0, 0, 0]
   \<and> (\<exists>codes. canonical_codes [0, 1, 5, 1, 1, 1, 1, 1, 1, 0, 0, 0, 0, 0, 0, 0] = Inr codes
          \<and> prefix_free codes \<and> length codes = 12)"
proof -
  have h: "valid_histogram [0, 1, 5, 1, 1, 1, 1, 1, 1, 0, 0, 0, 0, 0, 0, 0]"
    by (simp add: valid_histogram_def codes_used_def atLeastAtMost_upt
        upt_rec [of _ "numeral _"] upt_rec [of _ "Suc _"] take_Cons')
  have "\<exists>codes. canonical_codes [0, 1, 5, 1, 1, 1, 1, 1, 1, 0, 0, 0, 0, 0, 0, 0] = Inr codes
      \<and> prefix_free codes
      \<and> length codes = sum_list [0, 1, 5, 1, 1, 1, 1, 1, 1, 0, 0, 0, 0, 0, 0, 0]"
    using canonical_codes_prefix_free [OF h] by blast
  moreover have "sum_list [0, 1, 5, 1, 1, 1, 1, 1, 1, 0, 0, 0, 0, 0, 0, 0] = (12::nat)"
    by simp
  ultimately show ?thesis using h by simp
qed

section \<open>Differential DC decoding\<close>

lemma decode_units_snoc:
  "decode_units P (us @ [u]) =
     (fst (decode_dc (fst (decode_units P us)) u),
      snd (decode_units P us) @ snd (decode_dc (fst (decode_units P us)) u))"
  by (induction us arbitrary: P) (simp_all add: split_def Let_def)

lemma decode_units_append:
  "decode_units P (us @ vs) =
     (fst (decode_units (fst (decode_units P us)) vs),
      snd (decode_units P us) @ snd (decode_units (fst (decode_units P us)) vs))"
  by (induction us arbitrary: P) (simp_all add: split_def Let_def)

text \<open>
  Between two resets the predictor of a component is the last DC value decoded for it, or
  still its value at the reset when none has been decoded.
\<close>

lemma predictor_tracks_last_dc:
  "Restart_marker \<notin> set us \<Longrightarrow>
   fst (decode_units P us) c =
     (case map_of (rev (snd (decode_units P us))) c of None \<Rightarrow> P c | Some v \<Rightarrow> v)"
proof (induction us rule: rev_induct)
  case Nil
  then show ?case by simp
next
  case (snoc u us)
  then obtain c' d where u: "u = DC_difference c' d"
    by (cases u) auto
  from snoc have IH: "fst (decode_units P us) c =
     (case map_of (rev (snd (decode_units P us))) c of None \<Rightarrow> P c | Some v \<Rightarrow> v)"
    by simp
  show ?case
    by (simp add: decode_units_snoc u IH)
qed

lemma predictor_after_restart:
  "fst (decode_units P (us @ [Restart_marker])) = start_of_scan"
  by (simp add: decode_units_snoc start_of_scan_def)

lemma predictor_at_interval_start:
  assumes "before = [] \<or> last before = Restart_marker"
  shows "fst (decode_scan before) = start_of_scan"
proof (cases before rule: rev_cases)
  case Nil
  then show ?thesis by (simp add: decode_scan_def)
next
  case (snoc us u)
  with assms show ?thesis
    by (simp add: decode_scan_def predictor_after_restart)
qed

text \<open>
  C8. On the decoding the specification describes: in every scan, a DC coefficient is
  the previous DC value of its component plus the decoded difference, where the previous
  value is taken among the DC values decoded since the start of the scan or the last
  restart marker and is 0 when there is none (first conjunct; \<open>before\<close> is the scan up
  to and with the last restart marker, \<open>interval\<close> what follows it). The predictor of
  every component is 0 at the start of a scan and right after a restart marker, and a
  decoded difference resets nothing: it moves its own component's predictor to the DC
  value and leaves the others.
\<close>

theorem dc_is_predictor_plus_difference:
  assumes "before = [] \<or> last before = Restart_marker"
    and "Restart_marker \<notin> set interval"
  shows "snd (decode_scan (before @ interval @ [DC_difference c d])) =
           snd (decode_scan (before @ interval))
           @ [(c, previous_dc c (drop (length (snd (decode_scan before)))
                                   (snd (decode_scan (before @ interval)))) + d)]
    \<and> fst (decode_scan []) c = 0
    \<and> fst (decode_scan (us @ [Restart_marker])) c = 0
    \<and> fst (decode_scan (us @ [DC_difference c d])) =
        (fst (decode_scan us))(c := fst (decode_scan us) c + d)"
proof -
  have reset: "fst (decode_scan before) = start_of_scan"
    using assms(1) by (rule predictor_at_interval_start)
  have out: "snd (decode_scan (before @ interval)) =
      snd (decode_scan before) @ snd (decode_units start_of_scan interval)"
    using reset by (simp add: decode_scan_def decode_units_append)
  have P: "fst (decode_scan (before @ interval)) = fst (decode_units start_of_scan interval)"
    using reset by (simp add: decode_scan_def decode_units_append)
  have "fst (decode_units start_of_scan interval) c =
      previous_dc c (snd (decode_units start_of_scan interval))"
    using predictor_tracks_last_dc [OF assms(2), of start_of_scan c]
    by (simp add: previous_dc_def start_of_scan_def split: option.splits)
  then have "snd (decode_scan (before @ interval @ [DC_difference c d])) =
           snd (decode_scan (before @ interval))
           @ [(c, previous_dc c (drop (length (snd (decode_scan before)))
                                   (snd (decode_scan (before @ interval)))) + d)]"
    using decode_units_snoc [of start_of_scan "before @ interval" "DC_difference c d"] out P
    by (simp add: decode_scan_def)
  moreover have "fst (decode_scan []) c = 0"
    by (simp add: decode_scan_def start_of_scan_def)
  moreover have "fst (decode_scan (us @ [Restart_marker])) c = 0"
    by (simp add: decode_scan_def predictor_after_restart start_of_scan_def)
  moreover have "fst (decode_scan (us @ [DC_difference c d])) =
      (fst (decode_scan us))(c := fst (decode_scan us) c + d)"
    by (simp add: decode_scan_def decode_units_snoc)
  ultimately show ?thesis by blast
qed

text \<open>
  A scan with two restart intervals: component 0 reaches 5 and then 3 in the first; after
  the restart marker its first DC value is the bare difference 4, and the next, decoded
  here, is 4 + 1.
\<close>

theorem dc_is_predictor_plus_difference_witness:
  "last [DC_difference 0 5, DC_difference 1 3, DC_difference 0 (- 2), Restart_marker]
     = Restart_marker
   \<and> Restart_marker \<notin> set [DC_difference 0 4, DC_difference 1 7]
   \<and> snd (decode_scan
       ([DC_difference 0 5, DC_difference 1 3, DC_difference 0 (- 2), Restart_marker]
        @ [DC_difference 0 4, DC_difference 1 7] @ [DC_difference 0 1]))
     = [(0, 5), (1, 3), (0, 3), (0, 4), (1, 7), (0, 5)]"
proof -
  let ?before = "[DC_difference 0 5, DC_difference 1 3, DC_difference 0 (- 2), Restart_marker]"
  let ?interval = "[DC_difference 0 4, DC_difference 1 7]"
  have h1: "?before = [] \<or> last ?before = Restart_marker"
    by simp
  have h2: "Restart_marker \<notin> set ?interval"
    by simp
  have b: "snd (decode_scan ?before) = [(0, 5), (1, 3), (0, 3)]"
    by (simp add: decode_scan_def start_of_scan_def)
  have bi: "snd (decode_scan (?before @ ?interval)) = [(0, 5), (1, 3), (0, 3), (0, 4), (1, 7)]"
    by (simp add: decode_scan_def start_of_scan_def)
  from dc_is_predictor_plus_difference [OF h1 h2, of 0 1]
  have "snd (decode_scan (?before @ ?interval @ [DC_difference 0 1])) =
      snd (decode_scan (?before @ ?interval))
      @ [(0, previous_dc 0 (drop (length (snd (decode_scan ?before)))
                              (snd (decode_scan (?before @ ?interval)))) + 1)]"
    by blast
  then have "snd (decode_scan (?before @ ?interval @ [DC_difference 0 1])) =
      [(0, 5), (1, 3), (0, 3), (0, 4), (1, 7), (0, 5)]"
    unfolding b bi by (simp add: previous_dc_def)
  with h2 show ?thesis by simp
qed

section \<open>The bit reader\<close>

lemma prepend_Nil [simp]: "prepend [] res = res"
  by (simp add: prepend_def split: sum.splits)

lemma prepend_prepend: "prepend as (prepend bs res) = prepend (as @ bs) res"
  by (simp add: prepend_def split: sum.splits)

lemma prepend_Inr [simp]: "prepend bs (Inr (xs, m, r)) = Inr (bs @ xs, m, r)"
  by (simp add: prepend_def)

lemma read_bits_Got:
  "nextBit r = Inr (Got x, r') \<Longrightarrow> read_bits r = prepend [x] (read_bits r')"
  by (subst read_bits.simps) (simp add: prepend_def split: sum.splits)

lemma read_bits_End:
  "nextBit r = Inr (Segment_end m, r') \<Longrightarrow> read_bits r = Inr ([], m, r')"
  by (subst read_bits.simps) simp

text \<open>The bits still to come of the current byte are handed out before the cursor moves.\<close>

lemma read_bits_cached:
  "bits_left r = k \<Longrightarrow>
   read_bits r = prepend (map (bit (current r)) (rev [0..<k])) (read_bits (r\<lparr>bits_left := 0\<rparr>))"
proof (induction k arbitrary: r)
  case 0
  then have "r\<lparr>bits_left := 0\<rparr> = r"
    by simp
  then show ?case by simp
next
  case (Suc k)
  then have "nextBit r = Inr (Got (bit (current r) k), r\<lparr>bits_left := k\<rparr>)"
    by (simp add: nextBit_def)
  then have "read_bits r = prepend [bit (current r) k] (read_bits (r\<lparr>bits_left := k\<rparr>))"
    by (rule read_bits_Got)
  also have "read_bits (r\<lparr>bits_left := k\<rparr>) =
      prepend (map (bit (current r)) (rev [0..<k])) (read_bits (r\<lparr>bits_left := 0\<rparr>))"
    using Suc.IH [of "r\<lparr>bits_left := k\<rparr>"] by simp
  finally show ?case
    by (simp add: prepend_prepend)
qed

lemma byte_bits_alt: "byte_bits b = bit b 7 # map (bit b) (rev [0..<7])"
proof -
  have "rev [0..<7::nat] = [6, 5, 4, 3, 2, 1, 0]"
    by code_simp
  then show ?thesis
    by (simp add: byte_bits_def)
qed

lemma read_bits_byte:
  assumes "bits_left r = 0" and "next_byte r = Inr (Got b, r')"
  shows "read_bits r = prepend (byte_bits b) (read_bits (r'\<lparr>current := b, bits_left := 0\<rparr>))"
proof -
  from assms have "nextBit r = Inr (Got (bit b 7), r'\<lparr>current := b, bits_left := 7\<rparr>)"
    by (simp add: nextBit_def)
  then have "read_bits r = prepend [bit b 7] (read_bits (r'\<lparr>current := b, bits_left := 7\<rparr>))"
    by (rule read_bits_Got)
  also have "read_bits (r'\<lparr>current := b, bits_left := 7\<rparr>) =
      prepend (map (bit b) (rev [0..<7])) (read_bits (r'\<lparr>current := b, bits_left := 0\<rparr>))"
    using read_bits_cached [of "r'\<lparr>current := b, bits_left := 7\<rparr>" 7] by simp
  finally show ?thesis
    by (simp add: prepend_prepend byte_bits_alt)
qed

lemma next_byte_data:
  assumes "buffer r = pre @ stuff (b # data) @ tail" and "cursor r = length pre"
  shows "next_byte r = Inr (Got b, r\<lparr>cursor := length (pre @ stuff [b])\<rparr>)"
  using assms by (simp add: next_byte_def stuff_def nth_append)

lemma next_byte_marker:
  assumes "buffer r = pre @ [0xFF, m] @ tail" and "cursor r = length pre" and "m \<noteq> 0"
  shows "next_byte r = Inr (Segment_end m, r)"
  using assms by (simp add: next_byte_def nth_append)

lemma stuff_Cons: "stuff (b # data) = stuff [b] @ stuff data"
  by (simp add: stuff_def)

lemma read_bits_segment:
  assumes "buffer r = pre @ stuff data @ [0xFF, m] @ rest"
    and "cursor r = length pre" and "bits_left r = 0" and "m \<noteq> 0"
  shows "\<exists>c. read_bits r =
           Inr (concat (map byte_bits data), m,
                r\<lparr>cursor := length pre + length (stuff data), current := c\<rparr>)"
  using assms
proof (induction data arbitrary: r pre)
  case Nil
  then have "next_byte r = Inr (Segment_end m, r)"
    using next_byte_marker [of r pre m rest] by (simp add: stuff_def)
  with Nil have "nextBit r = Inr (Segment_end m, r)"
    by (simp add: nextBit_def)
  then have "read_bits r = Inr ([], m, r)"
    by (rule read_bits_End)
  moreover have "r\<lparr>cursor := length pre + length (stuff []), current := current r\<rparr> = r"
    using Nil by (simp add: stuff_def)
  ultimately have "read_bits r = Inr (concat (map byte_bits []), m,
      r\<lparr>cursor := length pre + length (stuff []), current := current r\<rparr>)"
    by simp
  then show ?case ..
next
  case (Cons b data)
  let ?r1 = "r\<lparr>cursor := length (pre @ stuff [b]), current := b, bits_left := 0\<rparr>"
  from Cons.prems have "next_byte r = Inr (Got b, r\<lparr>cursor := length (pre @ stuff [b])\<rparr>)"
    using next_byte_data [of r pre b data "[0xFF, m] @ rest"] by simp
  with Cons.prems(3) have step: "read_bits r = prepend (byte_bits b) (read_bits ?r1)"
    using read_bits_byte by simp
  have "buffer ?r1 = (pre @ stuff [b]) @ stuff data @ [0xFF, m] @ rest"
    using Cons.prems(1) by (simp add: stuff_Cons [of b data])
  from Cons.IH [OF this _ _ Cons.prems(4)] obtain c where
    "read_bits ?r1 = Inr (concat (map byte_bits data), m,
        ?r1\<lparr>cursor := length (pre @ stuff [b]) + length (stuff data), current := c\<rparr>)"
    by auto
  with step have "read_bits r = Inr (concat (map byte_bits (b # data)), m,
      r\<lparr>cursor := length pre + length (stuff (b # data)), current := c\<rparr>)"
    using Cons.prems(3) by (simp add: stuff_Cons [of b data])
  then show ?case by blast
qed

lemma nextBit_keeps_buffer:
  "nextBit r = Inr (x, r') \<Longrightarrow> buffer r' = buffer r"
  by (auto simp: nextBit_def next_byte_def
      split: if_splits sum.splits prod.splits fetched.splits)

lemma read_bits_keeps_buffer:
  "read_bits r = Inr (xs, m, r') \<Longrightarrow> buffer r' = buffer r"
proof (induction r arbitrary: xs m r' rule: read_bits.induct)
  case (1 r)
  show ?case
  proof (cases "nextBit r")
    case (Inl e)
    with "1.prems" show ?thesis
      by (subst (asm) read_bits.simps) simp
  next
    case (Inr res)
    obtain f q where res: "res = (f, q)"
      by (cases res)
    from Inr res have keep: "buffer q = buffer r"
      by (auto dest: nextBit_keeps_buffer)
    show ?thesis
    proof (cases f)
      case (Segment_end k)
      with "1.prems" Inr res have "r' = q"
        by (subst (asm) read_bits.simps) simp
      with keep show ?thesis by simp
    next
      case (Got x)
      with "1.prems" Inr res obtain ys where "read_bits q = Inr (ys, m, r')"
        by (subst (asm) read_bits.simps) (auto split: sum.splits)
      from "1.IH" [OF Inr res [symmetric] Got this] keep show ?thesis
        by simp
    qed
  qed
qed

text \<open>
  C10. On the reader the specification describes: let an entropy-coded segment hold the
  stuffed form of any data, be followed by a marker \<open>0xFF m\<close> with \<open>m\<close> nonzero, and be
  read from its first byte at a byte boundary. Then reading bits until the reader reports
  a marker succeeds and gives exactly the bits of the data, each 0xFF of the data
  included and none of the stuffed zero bytes; it reports the marker \<open>m\<close> and leaves the
  cursor on it, so that the marker is the next thing read from the buffer; and the
  buffer is as the caller gave it. No read at all, of one bit or of a segment, changes the
  buffer.
\<close>

theorem bit_reader_strips_stuffing:
  assumes "buffer r = pre @ stuff data @ [0xFF, m] @ rest"
    and "cursor r = length pre" and "bits_left r = 0" and "m \<noteq> 0"
  shows "\<exists>r'. read_bits r = Inr (concat (map byte_bits data), m, r')
           \<and> drop (cursor r') (buffer r') = [0xFF, m] @ rest
           \<and> next_byte r' = Inr (Segment_end m, r')
           \<and> buffer r' = buffer r
           \<and> (\<forall>q x q'. nextBit q = Inr (x, q') \<longrightarrow> buffer q' = buffer q)
           \<and> (\<forall>q xs k q'. read_bits q = Inr (xs, k, q') \<longrightarrow> buffer q' = buffer q)"
proof -
  from read_bits_segment [OF assms] obtain c where
    rd: "read_bits r = Inr (concat (map byte_bits data), m,
           r\<lparr>cursor := length pre + length (stuff data), current := c\<rparr>)"
    by blast
  let ?r' = "r\<lparr>cursor := length pre + length (stuff data), current := c\<rparr>"
  have buf: "buffer ?r' = (pre @ stuff data) @ [0xFF, m] @ rest"
    using assms(1) by simp
  have "drop (cursor ?r') (buffer ?r') = [0xFF, m] @ rest"
    unfolding buf by simp
  moreover have "next_byte ?r' = Inr (Segment_end m, ?r')"
    using buf assms(4) by (intro next_byte_marker [of ?r' "pre @ stuff data" m rest]) simp_all
  moreover have "buffer ?r' = buffer r"
    by simp
  moreover have "\<forall>q x q'. nextBit q = Inr (x, q') \<longrightarrow> buffer q' = buffer q"
    using nextBit_keeps_buffer by blast
  moreover have "\<forall>q xs k q'. read_bits q = Inr (xs, k, q') \<longrightarrow> buffer q' = buffer q"
    using read_bits_keeps_buffer by blast
  ultimately show ?thesis
    using rd by blast
qed

text \<open>
  The segment \<open>12 FF 00 34\<close> after SOI, ended by the marker \<open>FF D9\<close>: the bits read are
  those of \<open>12 FF 34\<close>.
\<close>

theorem bit_reader_strips_stuffing_witness:
  "(0xD9 :: byte) \<noteq> 0
   \<and> (\<exists>r'. read_bits (open_reader [0xD8, 0x12, 0xFF, 0x00, 0x34, 0xFF, 0xD9, 0x01] 1)
             = Inr (concat (map byte_bits [0x12, 0xFF, 0x34]), 0xD9, r')
          \<and> drop (cursor r') (buffer r') = [0xFF, 0xD9, 0x01]
          \<and> buffer r' = [0xD8, 0x12, 0xFF, 0x00, 0x34, 0xFF, 0xD9, 0x01])"
proof -
  let ?r = "open_reader [0xD8, 0x12, 0xFF, 0x00, 0x34, 0xFF, 0xD9, 0x01] 1"
  have h1: "buffer ?r = [0xD8] @ stuff [0x12, 0xFF, 0x34] @ [0xFF, 0xD9] @ [0x01]"
    by (simp add: open_reader_def stuff_def)
  have h2: "cursor ?r = length [0xD8 :: byte]"
    by (simp add: open_reader_def)
  have h3: "bits_left ?r = 0"
    by (simp add: open_reader_def)
  have h4: "(0xD9 :: byte) \<noteq> 0"
    by simp
  from bit_reader_strips_stuffing [OF h1 h2 h3 h4] obtain r' where
    "read_bits ?r = Inr (concat (map byte_bits [0x12, 0xFF, 0x34]), 0xD9, r')"
    and "drop (cursor r') (buffer r') = [0xFF, 0xD9] @ [0x01]"
    and "buffer r' = buffer ?r"
    by blast
  then show ?thesis
    using h4 by (auto simp: open_reader_def)
qed

end
